theory Spec2Isabelle
  imports Main "HOL-Library.Word" "HOL-Library.FSet"
begin

section \<open>Raft progress and election trackers (raft/tracker.hh)\<close>

subsection \<open>Basic types\<close>

text \<open>
  \<open>index_t\<close> and \<open>server_id\<close> are declared in raft.hh.  The header uses
  \<open>index_t\<close> as an unsigned 64-bit integer (\<open>index_t(0)\<close>, \<open>idx + index_t{1}\<close>,
  \<open>std::max\<close>), so it is a 64-bit word here: addition wraps, the order is the
  unsigned one.  Of \<open>server_id\<close> only equality and hashing are used, so it is the type
  parameter \<open>'id\<close> of every structure below.  \<open>size_t\<close> is 64 bits wide.
\<close>

type_synonym index_t = "64 word"
type_synonym size_t = "64 word"

subsection \<open>follower_progress\<close>

datatype state = PROBE | PIPELINE | SNAPSHOT

record 'id follower_progress =
  id :: 'id
  next_idx :: index_t
  match_idx :: index_t
  commit_idx :: index_t
  state :: state
  probe_sent :: bool
  in_flight :: size_t

definition max_in_flight :: size_t where
  "max_in_flight = 10"

text \<open>The constructor: the two arguments, every other field at its default.\<close>

definition follower_progress :: "'id \<Rightarrow> index_t \<Rightarrow> 'id follower_progress" where
  "follower_progress id_arg next_idx_arg =
     \<lparr> id = id_arg, next_idx = next_idx_arg, match_idx = 0, commit_idx = 0,
       state = PROBE, probe_sent = False, in_flight = 0 \<rparr>"

text \<open>
  \<open>accepted\<close>: both assignments in the order of the source; the second does not read
  the field the first one wrote.
\<close>

definition accepted :: "index_t \<Rightarrow> 'id follower_progress \<Rightarrow> 'id follower_progress" where
  "accepted idx p =
     (let p1 = p\<lparr> match_idx := max idx (match_idx p) \<rparr>
      in p1\<lparr> next_idx := max (idx + 1) (next_idx p1) \<rparr>)"

subsection \<open>vote_result and election_tracker\<close>

datatype vote_result = UNKNOWN | WON | LOST

datatype error = Assertion_failed

text \<open>
  A \<open>server_address\<close> (raft.hh) carries the server's id and its \<open>can_vote\<close> flag; a
  \<open>server_address_set\<close> is given as the list of its elements in iteration order.
\<close>

record 'id server_address =
  addr_id :: 'id
  can_vote :: bool

record 'id election_tracker =
  suffrage :: "'id fset"
  responded :: "'id fset"
  granted :: size_t

text \<open>\<open>std::unordered_set::size()\<close>, a \<open>size_t\<close>.\<close>

definition set_size :: "'id fset \<Rightarrow> size_t" where
  "set_size s = of_nat (fcard s)"

text \<open>The constructor loop: every address that can vote is put into the suffrage.\<close>

fun collect_suffrage :: "'id server_address list \<Rightarrow> 'id fset \<Rightarrow> 'id fset" where
  "collect_suffrage [] s = s"
| "collect_suffrage (a # as) s =
     collect_suffrage as (if can_vote a then finsert (addr_id a) s else s)"

definition election_tracker :: "'id server_address list \<Rightarrow> 'id election_tracker" where
  "election_tracker configuration =
     \<lparr> suffrage = collect_suffrage configuration {||}, responded = {||}, granted = 0 \<rparr>"

text \<open>
  \<open>register_vote\<close> returns its boolean together with the tracker after the call.
  \<open>emplace(from).second\<close> is true exactly when \<open>from\<close> was not yet in the set.
\<close>

definition register_vote ::
  "'id \<Rightarrow> bool \<Rightarrow> 'id election_tracker \<Rightarrow> bool \<times> 'id election_tracker" where
  "register_vote from g t =
     (if from |\<notin>| suffrage t then (False, t)
      else if from |\<notin>| responded t
        then (True, t\<lparr> responded := finsert from (responded t),
                       granted := granted t + (if g then 1 else 0) \<rparr>)
        else (True, t))"

text \<open>\<open>tally_votes\<close>: the failing \<open>assert\<close> is the error value.\<close>

definition tally_votes :: "'id election_tracker \<Rightarrow> error + vote_result" where
  "tally_votes t =
     (let quorum = set_size (suffrage t) div 2 + 1 in
      if granted t \<ge> quorum then Inr WON
      else if \<not> set_size (responded t) \<le> set_size (suffrage t) then Inl Assertion_failed
      else
        let unknown = set_size (suffrage t) - set_size (responded t) in
        Inr (if granted t + unknown \<ge> quorum then UNKNOWN else LOST))"

text \<open>A sequence of calls: replies fed to the tracker one after the other.\<close>

fun accepted_all :: "index_t list \<Rightarrow> 'id follower_progress \<Rightarrow> 'id follower_progress" where
  "accepted_all [] p = p"
| "accepted_all (idx # idxs) p = accepted_all idxs (accepted idx p)"

fun register_votes :: "('id \<times> bool) list \<Rightarrow> 'id election_tracker \<Rightarrow> 'id election_tracker" where
  "register_votes [] t = t"
| "register_votes ((from, g) # vs) t = register_votes vs (snd (register_vote from g t))"

subsection \<open>Parts of the tracker whose bodies are in tracker.cc\<close>

text \<open>
  Modelled from the spec: \<open>follower_progress::can_send_to\<close> is declared in the header
  and defined in tracker.cc.  The spec: in \<open>Probe\<close>, true only if no probe is
  outstanding (\<open>!probe_sent\<close>); in \<open>Pipeline\<close>, true iff
  \<open>in_flight < max_in_flight\<close>; in \<open>Snapshot\<close>, false.
\<close>

definition can_send_to :: "'id follower_progress \<Rightarrow> bool" where
  "can_send_to p =
     (case state p of
        PROBE \<Rightarrow> \<not> probe_sent p
      | PIPELINE \<Rightarrow> in_flight p < max_in_flight
      | SNAPSHOT \<Rightarrow> False)"

text \<open>
  The class \<open>votes\<close>: the address set, the tracker of the current configuration and
  the optional tracker of the previous one.
\<close>

record 'id votes =
  voters :: "'id server_address list"
  current :: "'id election_tracker"
  previous :: "'id election_tracker option"

text \<open>
  Modelled from the spec: \<open>votes::tally_votes\<close> is declared in the header and defined
  in tracker.cc.  The spec: if there is no \<open>previous\<close>, return
  \<open>current.tally_votes()\<close>; if \<open>previous\<close> is present, the result is \<open>Won\<close> only
  if both report \<open>Won\<close>, \<open>Lost\<close> if either reports \<open>Lost\<close>, otherwise
  \<open>Unknown\<close>.  \<open>joint_result\<close> is that rule on two results.
\<close>

definition joint_result :: "vote_result \<Rightarrow> vote_result \<Rightarrow> vote_result" where
  "joint_result c p =
     (if c = WON \<and> p = WON then WON
      else if c = LOST \<or> p = LOST then LOST
      else UNKNOWN)"

text \<open>
  Modelled from the spec: \<open>votes::tally_votes\<close> itself, over the
  \<open>election_tracker::tally_votes\<close> of the header.  A failed assertion of either tally
  is passed on.
\<close>

definition votes_tally_votes :: "'id votes \<Rightarrow> error + vote_result" where
  "votes_tally_votes v =
     (case previous v of
        None \<Rightarrow> tally_votes (current v)
      | Some prev \<Rightarrow>
          (case tally_votes (current v) of
             Inl e \<Rightarrow> Inl e
           | Inr c \<Rightarrow>
               (case tally_votes prev of
                  Inl e \<Rightarrow> Inl e
                | Inr p \<Rightarrow> Inr (joint_result c p))))"

text \<open>
  The class \<open>tracker\<close>: the map from server id to progress it derives from, the
  leader's id and the two voter sets.  \<open>_leader_progress\<close> points into the map or is
  null; it is the key of the entry it points to.
\<close>

record 'id tracker =
  progress :: "'id \<rightharpoonup> 'id follower_progress"
  my_id :: 'id
  current_voters :: "'id fset"
  previous_voters :: "'id fset"
  leader_progress :: "'id option"

text \<open>The constructor: the leader's id; no entries, no voters, no leader progress.\<close>

definition tracker :: "'id \<Rightarrow> 'id tracker" where
  "tracker my_id_arg =
     \<lparr> progress = Map.empty, my_id = my_id_arg, current_voters = {||},
       previous_voters = {||}, leader_progress = None \<rparr>"

text \<open>\<open>tracker::find\<close>: the entry, or \<open>None\<close> for \<open>nullptr\<close>.\<close>

definition find_progress :: "'id tracker \<Rightarrow> 'id \<Rightarrow> 'id follower_progress option" where
  "find_progress t dst = progress t dst"

text \<open>
  Modelled from the spec: \<open>tracker::committed\<close> is declared in the header and defined
  in tracker.cc.  The spec: gather the \<open>match_idx\<close> values of the members of
  \<open>current_voters\<close> (the leader's own \<open>match_idx\<close> is treated as the log's last
  index when the leader is absent from the progress map); the candidate commit index is
  the largest index \<open>X\<close> such that a strict majority (\<open>n div 2 + 1\<close> out of
  \<open>n = |current_voters|\<close>) of members have \<open>match_idx \<ge> X\<close>; if
  \<open>previous_voters\<close> is non-empty, compute the same over \<open>previous_voters\<close> and
  take the minimum of the two; the result is never smaller than \<open>prev_commit_idx\<close>.
  The log is not part of the tracker, so its last index is the argument \<open>last_idx\<close>
  of the definitions below.

  \<open>voter_match\<close> is the \<open>match_idx\<close> the spec gathers for a voter: that of its entry
  in the map; for the leader without an entry, the log's last index; a voter other than
  the leader without an entry has none.
\<close>

definition voter_match :: "index_t \<Rightarrow> 'id tracker \<Rightarrow> 'id \<Rightarrow> index_t option" where
  "voter_match last_idx t v =
     (case progress t v of
        Some p \<Rightarrow> Some (match_idx p)
      | None \<Rightarrow> if v = my_id t then Some last_idx else None)"

text \<open>
  Modelled from the spec: a member "has \<open>match_idx \<ge> X\<close>", with the leader's
  \<open>match_idx\<close> read as above.
\<close>

definition supports :: "index_t \<Rightarrow> 'id tracker \<Rightarrow> index_t \<Rightarrow> 'id \<Rightarrow> bool" where
  "supports last_idx t X v =
     (case voter_match last_idx t v of None \<Rightarrow> False | Some m \<Rightarrow> X \<le> m)"

text \<open>
  Modelled from the spec: a strict majority, \<open>n div 2 + 1\<close> out of \<open>n\<close> voters,
  have \<open>match_idx \<ge> X\<close>.
\<close>

definition has_majority :: "index_t \<Rightarrow> 'id tracker \<Rightarrow> 'id fset \<Rightarrow> index_t \<Rightarrow> bool" where
  "has_majority last_idx t vs X =
     (fcard vs div 2 + 1 \<le> fcard (ffilter (supports last_idx t X) vs))"

text \<open>
  Modelled from the spec: the gathered set of \<open>match_idx\<close> values of the voters, the
  leader's included.
\<close>

definition match_values :: "index_t \<Rightarrow> 'id tracker \<Rightarrow> 'id fset \<Rightarrow> index_t fset" where
  "match_values last_idx t vs =
     (\<lambda>v. the (voter_match last_idx t v)) |`| ffilter (\<lambda>v. voter_match last_idx t v \<noteq> None) vs"

text \<open>
  Modelled from the spec: the candidate commit index of a voter set, the largest gathered
  index that has a strict majority; \<open>None\<close> where no index has one (an empty voter
  set), so that there is no candidate.
\<close>

definition majority_index :: "index_t \<Rightarrow> 'id tracker \<Rightarrow> 'id fset \<Rightarrow> index_t option" where
  "majority_index last_idx t vs =
     (let candidates = ffilter (has_majority last_idx t vs) (match_values last_idx t vs)
      in if candidates = {||} then None else Some (fMax candidates))"

text \<open>
  Modelled from the spec: \<open>tracker::committed\<close> itself.  The candidate is the majority
  index of the current voters, or the minimum of both majority indices in a joint
  configuration.  The result is never smaller than \<open>prev_commit_idx\<close>: it is the
  larger of \<open>prev_commit_idx\<close> and the candidate, and \<open>prev_commit_idx\<close> where
  there is no candidate.
\<close>

definition committed :: "index_t \<Rightarrow> 'id tracker \<Rightarrow> index_t \<Rightarrow> index_t" where
  "committed last_idx t prev_commit_idx =
     (case majority_index last_idx t (current_voters t) of
        None \<Rightarrow> prev_commit_idx
      | Some c \<Rightarrow>
          if previous_voters t = {||} then max prev_commit_idx c
          else (case majority_index last_idx t (previous_voters t) of
                  None \<Rightarrow> prev_commit_idx
                | Some p \<Rightarrow> max prev_commit_idx (min c p)))"

subsection \<open>Example configurations\<close>

text \<open>Five voting members and one observer.\<close>

definition five_voters :: "nat server_address list" where
  "five_voters =
     [\<lparr>addr_id = 1, can_vote = True\<rparr>, \<lparr>addr_id = 2, can_vote = True\<rparr>,
      \<lparr>addr_id = 3, can_vote = True\<rparr>, \<lparr>addr_id = 4, can_vote = True\<rparr>,
      \<lparr>addr_id = 5, can_vote = True\<rparr>, \<lparr>addr_id = 6, can_vote = False\<rparr>]"

definition observers_only :: "nat server_address list" where
  "observers_only = [\<lparr>addr_id = 1, can_vote = False\<rparr>, \<lparr>addr_id = 2, can_vote = False\<rparr>]"

text \<open>
  A progress map with the given match indices for servers \<open>k\<close>, \<open>k + 1\<close>, ...,
  and the set of these servers.
\<close>

fun progress_of :: "nat \<Rightarrow> index_t list \<Rightarrow> (nat \<rightharpoonup> nat follower_progress)" where
  "progress_of k [] = Map.empty"
| "progress_of k (m # ms) =
     (progress_of (Suc k) ms)(k \<mapsto> (follower_progress k (m + 1))\<lparr> match_idx := m \<rparr>)"

fun ids_of :: "nat \<Rightarrow> index_t list \<Rightarrow> nat fset" where
  "ids_of k [] = {||}"
| "ids_of k (m # ms) = finsert k (ids_of (Suc k) ms)"

definition simple_tracker :: "index_t list \<Rightarrow> nat tracker" where
  "simple_tracker ms =
     \<lparr> progress = progress_of 1 ms, my_id = 1,
       current_voters = ids_of 1 ms,
       previous_voters = {||}, leader_progress = Some 1 \<rparr>"

text \<open>Joint configuration: servers 1 to 3 vote now, servers 4 to 6 voted before.\<close>

definition joint_tracker :: "index_t list \<Rightarrow> nat tracker" where
  "joint_tracker ms =
     \<lparr> progress = progress_of 1 ms, my_id = 1,
       current_voters = {|1, 2, 3|}, previous_voters = {|4, 5, 6|},
       leader_progress = Some 1 \<rparr>"

text \<open>
  Servers 1 to 3 vote; the leader, server 1, has no entry in the map; servers 2 and 3
  have match indices 5 and 3.
\<close>

definition absent_leader_tracker :: "nat tracker" where
  "absent_leader_tracker =
     \<lparr> progress = progress_of 2 [5, 3], my_id = 1,
       current_voters = {|1, 2, 3|}, previous_voters = {||},
       leader_progress = None \<rparr>"

section \<open>Properties\<close>

lemma accepted_fields:
  "match_idx (accepted idx p) = max idx (match_idx p)"
  "next_idx (accepted idx p) = max (idx + 1) (next_idx p)"
  by (simp_all add: accepted_def)

lemma accepted_all_mono:
  "match_idx p \<le> match_idx (accepted_all idxs p) \<and> next_idx p \<le> next_idx (accepted_all idxs p)"
proof (induction idxs arbitrary: p)
  case Nil
  show ?case by simp
next
  case (Cons i idxs)
  have "match_idx p \<le> match_idx (accepted i p)" "next_idx p \<le> next_idx (accepted i p)"
    by (simp_all add: accepted_fields)
  with Cons [of "accepted i p"] show ?case
    by (auto intro: order_trans)
qed

lemma accepted_all_append:
  "accepted_all (xs @ ys) p = accepted_all ys (accepted_all xs p)"
  by (induction xs arbitrary: p) simp_all

lemma no_wrap_less: "idx + 1 \<noteq> 0 \<Longrightarrow> idx < idx + (1::index_t)"
  by (metis add_neg_numeral_special(8) inc_less_eq_self_iff_eq
    verit_comp_simplify1(3))

lemma accepted_keeps_less:
  assumes "match_idx p < next_idx p" and "idx + 1 \<noteq> 0"
  shows "match_idx (accepted idx p) < next_idx (accepted idx p)"
  using assms(1) no_wrap_less [OF assms(2)]
  by (auto simp add: accepted_fields less_max_iff_disj)

lemma accepted_all_keeps_less:
  "match_idx p < next_idx p \<Longrightarrow> \<forall>idx \<in> set idxs. idx + 1 \<noteq> 0 \<Longrightarrow>
   match_idx (accepted_all idxs p) < next_idx (accepted_all idxs p)"
  by (induction idxs arbitrary: p) (simp_all add: accepted_keeps_less)

lemma unat_set_size: "fcard s < 2 ^ 64 \<Longrightarrow> unat (set_size s) = fcard s"
  by (simp add: set_size_def unat_of_nat)

lemma unat_quorum:
  assumes "fcard s < 2 ^ 63"
  shows "unat (set_size s div 2 + 1) = fcard s div 2 + 1"
proof -
  have s: "unat (set_size s) = fcard s" using assms by (simp add: unat_set_size)
  have d: "unat (set_size s div 2) = fcard s div 2" by (simp add: unat_div s)
  have "unat (set_size s div 2) + unat (1 :: size_t) < 2 ^ 64" using assms d by simp
  then have "unat (set_size s div 2 + 1) = unat (set_size s div 2) + unat (1 :: size_t)"
    by (simp add: unat_add_lem [THEN iffD1])
  with d show ?thesis by simp
qed

lemma tally_votes_nat:
  assumes r: "fcard (responded t) \<le> fcard (suffrage t)" and s: "fcard (suffrage t) < 2 ^ 63"
  shows "tally_votes t =
     Inr (if fcard (suffrage t) div 2 + 1 \<le> unat (granted t) then WON
          else if unat (granted t) + (fcard (suffrage t) - fcard (responded t))
                    < fcard (suffrage t) div 2 + 1 then LOST
          else UNKNOWN)"
proof -
  let ?s = "fcard (suffrage t)" and ?r = "fcard (responded t)"
  let ?S = "set_size (suffrage t)" and ?R = "set_size (responded t)"
  have uS: "unat ?S = ?s" and uR: "unat ?R = ?r" using r s by (simp_all add: unat_set_size)
  have uq: "unat (?S div 2 + 1) = ?s div 2 + 1" using s by (rule unat_quorum)
  have le: "?R \<le> ?S" using r by (simp add: word_le_nat_alt uS uR)
  have uu: "unat (?S - ?R) = ?s - ?r" using le by (simp add: unat_sub uS uR)
  have won: "(?S div 2 + 1 \<le> granted t) = (?s div 2 + 1 \<le> unat (granted t))"
    by (simp add: word_le_nat_alt uq)
  show ?thesis
  proof (cases "?s div 2 + 1 \<le> unat (granted t)")
    case True
    then show ?thesis by (simp add: tally_votes_def won)
  next
    case False
    then have "unat (granted t) + unat (?S - ?R) < 2 ^ 64" using s r uu by simp
    then have "unat (granted t + (?S - ?R)) = unat (granted t) + (?s - ?r)"
      by (simp add: unat_add_lem [THEN iffD1] uu)
    then have "(?S div 2 + 1 \<le> granted t + (?S - ?R)) =
               (?s div 2 + 1 \<le> unat (granted t) + (?s - ?r))"
      by (simp add: word_le_nat_alt uq)
    with False le r show ?thesis by (simp add: tally_votes_def won Let_def not_less)
  qed
qed

lemma register_vote_suffrage: "suffrage (snd (register_vote from g t)) = suffrage t"
  by (simp add: register_vote_def)

lemma unat_granted_step: "unat (x + (if g then 1 else 0 :: size_t)) \<le> Suc (unat x)"
  by (cases g) (simp_all add: unat_word_ariths le_trans [OF mod_less_eq_dividend])

lemma register_vote_inv:
  assumes "responded t |\<subseteq>| suffrage t" and "unat (granted t) \<le> fcard (responded t)"
  shows "responded (snd (register_vote from g t)) |\<subseteq>| suffrage (snd (register_vote from g t))
       \<and> unat (granted (snd (register_vote from g t)))
            \<le> fcard (responded (snd (register_vote from g t)))"
proof (cases "from |\<in>| suffrage t \<and> from |\<notin>| responded t")
  case True
  have "unat (granted t + (if g then 1 else 0)) \<le> Suc (unat (granted t))"
    by (rule unat_granted_step)
  with True assms show ?thesis
    by (simp add: register_vote_def fcard_finsert_disjoint)
next
  case False
  with assms show ?thesis by (auto simp add: register_vote_def)
qed

lemma register_votes_inv:
  "responded t |\<subseteq>| suffrage t \<Longrightarrow> unat (granted t) \<le> fcard (responded t) \<Longrightarrow>
   suffrage (register_votes vs t) = suffrage t
   \<and> responded (register_votes vs t) |\<subseteq>| suffrage t
   \<and> unat (granted (register_votes vs t)) \<le> fcard (responded (register_votes vs t))"
proof (induction vs arbitrary: t)
  case Nil
  then show ?case by simp
next
  case (Cons v vs)
  obtain f g where v: "v = (f, g)" by (cases v)
  let ?t = "snd (register_vote f g t)"
  have "responded ?t |\<subseteq>| suffrage ?t" "unat (granted ?t) \<le> fcard (responded ?t)"
    using register_vote_inv [OF Cons.prems] by simp_all
  from Cons.IH [OF this] show ?case by (simp add: v register_vote_suffrage)
qed

lemma collect_suffrage_none:
  "\<forall>a \<in> set cfg. \<not> can_vote a \<Longrightarrow> collect_suffrage cfg s = s"
  by (induction cfg arbitrary: s) simp_all

lemma register_votes_empty_suffrage:
  "suffrage t = {||} \<Longrightarrow> register_votes vs t = t"
  by (induction vs arbitrary: t) (auto simp add: register_vote_def)

lemma tally_votes_initial_empty:
  "tally_votes \<lparr> suffrage = {||}, responded = {||}, granted = 0 \<rparr> = Inr LOST"
  by (simp add: tally_votes_def set_size_def Let_def fcard_fempty)

subsection \<open>The majority index\<close>

lemma has_majority_candidate:
  assumes "has_majority L t vs X"
  shows "\<exists>m. m |\<in>| match_values L t vs \<and> X \<le> m \<and> has_majority L t vs m"
proof -
  let ?S = "ffilter (supports L t X) vs"
  let ?M = "(\<lambda>v. the (voter_match L t v)) |`| ?S"
  have "1 \<le> fcard ?S" using assms by (simp add: has_majority_def)
  then have ne: "?S \<noteq> {||}" by (auto simp add: fcard_fempty)
  then have Mne: "?M \<noteq> {||}" by simp
  define m where "m = fMin ?M"
  have "m |\<in>| ?M" unfolding m_def using Mne by (rule fMin_in)
  then obtain w where w: "w |\<in>| vs" "supports L t X w" "m = the (voter_match L t w)"
    by auto
  from w(2) obtain k where k: "voter_match L t w = Some k" "X \<le> k"
    by (auto simp add: supports_def split: option.splits)
  have Xm: "X \<le> m" using w(3) k by simp
  have mem: "m |\<in>| match_values L t vs"
    unfolding match_values_def using w(1) w(3) k(1) by force
  have "supports L t m v" if "v |\<in>| ?S" for v
  proof -
    from that obtain j where j: "voter_match L t v = Some j"
      by (auto simp add: supports_def split: option.splits)
    have "the (voter_match L t v) |\<in>| ?M" using that by blast
    then have "m \<le> the (voter_match L t v)" unfolding m_def by (rule fMin_le)
    with j show ?thesis by (simp add: supports_def)
  qed
  then have "?S |\<subseteq>| ffilter (supports L t m) vs" by auto
  then have "fcard ?S \<le> fcard (ffilter (supports L t m) vs)" by (rule fcard_mono)
  with assms have "has_majority L t vs m" by (simp add: has_majority_def)
  with mem Xm show ?thesis by blast
qed

lemma majority_index_Some:
  assumes "majority_index L t vs = Some r"
  shows "has_majority L t vs r \<and> (\<forall>Y. has_majority L t vs Y \<longrightarrow> Y \<le> r)"
proof -
  let ?C = "ffilter (has_majority L t vs) (match_values L t vs)"
  from assms have ne: "?C \<noteq> {||}" and r: "r = fMax ?C"
    by (auto simp add: majority_index_def Let_def split: if_splits)
  have "r |\<in>| ?C" unfolding r using ne by (rule fMax_in)
  then have maj: "has_majority L t vs r" by simp
  have "Y \<le> r" if "has_majority L t vs Y" for Y
  proof -
    from has_majority_candidate [OF that]
    obtain m where m: "m |\<in>| match_values L t vs" "Y \<le> m" "has_majority L t vs m" by blast
    then have "m |\<in>| ?C" by simp
    then have "m \<le> r" unfolding r by (rule fMax_ge)
    with m(2) show ?thesis by (rule order_trans)
  qed
  with maj show ?thesis by blast
qed

lemma majority_index_None:
  assumes "majority_index L t vs = None"
  shows "\<not> has_majority L t vs Y"
proof
  assume "has_majority L t vs Y"
  from has_majority_candidate [OF this]
  obtain m where "m |\<in>| match_values L t vs" "has_majority L t vs m" by blast
  then have "m |\<in>| ffilter (has_majority L t vs) (match_values L t vs)" by simp
  then have "ffilter (has_majority L t vs) (match_values L t vs) \<noteq> {||}" by blast
  with assms show False by (simp add: majority_index_def Let_def)
qed

lemma has_majority_zero:
  assumes "vs \<noteq> {||}" and "\<forall>v. v |\<in>| vs \<and> v \<noteq> my_id t \<longrightarrow> progress t v \<noteq> None"
  shows "has_majority L t vs 0"
proof -
  have "supports L t 0 v" if "v |\<in>| vs" for v
    using that assms(2) by (auto simp add: supports_def voter_match_def split: option.splits)
  then have "ffilter (supports L t 0) vs = vs" by auto
  moreover have "0 < fcard vs" using assms(1) by (simp add: neq0_conv [symmetric] del: neq0_conv)
  ultimately show ?thesis by (simp add: has_majority_def)
qed

lemma majority_index_unique:
  assumes "has_majority L t vs c" and "\<forall>Y. has_majority L t vs Y \<longrightarrow> Y \<le> c"
  shows "majority_index L t vs = Some c"
proof (cases "majority_index L t vs")
  case None
  from majority_index_None [OF None, of c] assms(1) show ?thesis by blast
next
  case (Some r)
  from majority_index_Some [OF Some] assms have "r \<le> c" "c \<le> r" by blast+
  with Some show ?thesis by simp
qed

lemma committed_ge_prev: "prev_commit_idx \<le> committed L t prev_commit_idx"
  by (simp add: committed_def split: option.splits)

section \<open>Claims\<close>

text \<open>
  C1, as stated, fails.  Five voters with match indices 10, 10, 5, 5, 5 and
  \<open>prev_commit_idx = 7\<close>: the result is 7, which only two of the five have reached,
  while the largest index that a strict majority have reached is 5.  And the tracker as
  constructed has no voters, so no index has a strict majority (1 out of 0) there,
  whatever is returned.
\<close>

theorem committed_spec_counterexample:
  "committed 10 (simple_tracker [10, 10, 5, 5, 5]) 7 = 7
   \<and> \<not> has_majority 10 (simple_tracker [10, 10, 5, 5, 5])
        (current_voters (simple_tracker [10, 10, 5, 5, 5])) 7
   \<and> has_majority 10 (simple_tracker [10, 10, 5, 5, 5])
        (current_voters (simple_tracker [10, 10, 5, 5, 5])) 5
   \<and> \<not> has_majority 0 (tracker (1::nat)) (current_voters (tracker (1::nat)))
        (committed 0 (tracker (1::nat)) 0)"
  by code_simp

text \<open>
  C1, amended.  For every tracker and every \<open>prev_commit_idx\<close>, the result of
  \<open>committed\<close> is never smaller than \<open>prev_commit_idx\<close>.  If \<open>c\<close> is the
  largest index such that a strict majority (\<open>n div 2 + 1\<close> of
  \<open>n = |current_voters|\<close>) of the current voters have \<open>match_idx \<ge> c\<close> (the
  leader without an entry in the map counting with the log's last index), the result is
  the larger of \<open>prev_commit_idx\<close> and \<open>c\<close> when \<open>previous_voters\<close> is empty,
  and the larger of \<open>prev_commit_idx\<close> and \<open>min c p\<close> when \<open>previous_voters\<close>
  is non-empty and \<open>p\<close> is the analogous index over \<open>previous_voters\<close>.  Such a
  largest index exists for every non-empty voter set whose members other than the leader
  all have an entry in the map.
\<close>

theorem committed_spec:
  "prev_commit_idx \<le> committed L t prev_commit_idx
   \<and> (has_majority L t (current_voters t) c
        \<and> (\<forall>Y. has_majority L t (current_voters t) Y \<longrightarrow> Y \<le> c) \<longrightarrow>
        (previous_voters t = {||} \<longrightarrow> committed L t prev_commit_idx = max prev_commit_idx c)
        \<and> (previous_voters t \<noteq> {||}
             \<and> has_majority L t (previous_voters t) p
             \<and> (\<forall>Y. has_majority L t (previous_voters t) Y \<longrightarrow> Y \<le> p) \<longrightarrow>
             committed L t prev_commit_idx = max prev_commit_idx (min c p)))
   \<and> (vs \<noteq> {||} \<and> (\<forall>v. v |\<in>| vs \<and> v \<noteq> my_id t \<longrightarrow> progress t v \<noteq> None) \<longrightarrow>
        (\<exists>m. has_majority L t vs m \<and> (\<forall>Y. has_majority L t vs Y \<longrightarrow> Y \<le> m)))"
proof (intro conjI impI)
  show "prev_commit_idx \<le> committed L t prev_commit_idx" by (rule committed_ge_prev)
next
  assume c: "has_majority L t (current_voters t) c
        \<and> (\<forall>Y. has_majority L t (current_voters t) Y \<longrightarrow> Y \<le> c)"
    and e: "previous_voters t = {||}"
  from c have "majority_index L t (current_voters t) = Some c"
    by (intro majority_index_unique) blast+
  with e show "committed L t prev_commit_idx = max prev_commit_idx c"
    by (simp add: committed_def)
next
  assume c: "has_majority L t (current_voters t) c
        \<and> (\<forall>Y. has_majority L t (current_voters t) Y \<longrightarrow> Y \<le> c)"
    and p: "previous_voters t \<noteq> {||}
             \<and> has_majority L t (previous_voters t) p
             \<and> (\<forall>Y. has_majority L t (previous_voters t) Y \<longrightarrow> Y \<le> p)"
  from c have "majority_index L t (current_voters t) = Some c"
    by (intro majority_index_unique) blast+
  moreover from p have "majority_index L t (previous_voters t) = Some p"
    by (intro majority_index_unique) blast+
  ultimately show "committed L t prev_commit_idx = max prev_commit_idx (min c p)"
    using p by (simp add: committed_def)
next
  assume v: "vs \<noteq> {||} \<and> (\<forall>v. v |\<in>| vs \<and> v \<noteq> my_id t \<longrightarrow> progress t v \<noteq> None)"
  then have "has_majority L t vs 0" by (intro has_majority_zero) blast+
  with majority_index_None [of L t vs 0] obtain m where "majority_index L t vs = Some m"
    by (cases "majority_index L t vs") blast+
  from majority_index_Some [OF this]
  show "\<exists>m. has_majority L t vs m \<and> (\<forall>Y. has_majority L t vs Y \<longrightarrow> Y \<le> m)" by blast
qed

text \<open>
  Five voters with match indices 10, 10, 10, 5, 5 commit 10 (and 12 from
  \<open>prev_commit_idx = 12\<close>); with 10, 10, 5, 5, 5 they commit 5; a joint configuration
  whose current voters give 10 and whose previous voters give 7 commits 7; a leader
  without an entry whose log ends at 8, with followers at 5 and 3, commits 5.
\<close>

theorem committed_spec_witness:
  "committed 10 (simple_tracker [10, 10, 10, 5, 5]) 0 = 10
   \<and> has_majority 10 (simple_tracker [10, 10, 10, 5, 5])
        (current_voters (simple_tracker [10, 10, 10, 5, 5])) 10
   \<and> \<not> has_majority 10 (simple_tracker [10, 10, 10, 5, 5])
        (current_voters (simple_tracker [10, 10, 10, 5, 5])) 11
   \<and> committed 10 (simple_tracker [10, 10, 10, 5, 5]) 12 = 12
   \<and> committed 10 (simple_tracker [10, 10, 5, 5, 5]) 0 = 5
   \<and> previous_voters (joint_tracker [10, 10, 3, 7, 7, 2]) \<noteq> {||}
   \<and> has_majority 10 (joint_tracker [10, 10, 3, 7, 7, 2])
        (current_voters (joint_tracker [10, 10, 3, 7, 7, 2])) 10
   \<and> has_majority 10 (joint_tracker [10, 10, 3, 7, 7, 2])
        (previous_voters (joint_tracker [10, 10, 3, 7, 7, 2])) 7
   \<and> committed 10 (joint_tracker [10, 10, 3, 7, 7, 2]) 0 = 7
   \<and> progress absent_leader_tracker (my_id absent_leader_tracker) = None
   \<and> has_majority 8 absent_leader_tracker (current_voters absent_leader_tracker) 5
   \<and> committed 8 absent_leader_tracker 0 = 5"
proof -
  let ?A = "simple_tracker [10, 10, 10, 5, 5]"
  let ?B = "simple_tracker [10, 10, 5, 5, 5]"
  let ?J = "joint_tracker [10, 10, 3, 7, 7, 2]"
  let ?T = "absent_leader_tracker"
  have pa: "previous_voters ?A = {||}" and pb: "previous_voters ?B = {||}"
    by (simp_all add: simple_tracker_def)
  have pj: "previous_voters ?J \<noteq> {||}" by (simp add: joint_tracker_def)
  have pt: "previous_voters ?T = {||}" "progress ?T (my_id ?T) = None"
    by (simp_all add: absent_leader_tracker_def)
  have ma: "majority_index 10 ?A (current_voters ?A) = Some 10" by code_simp
  have mb: "majority_index 10 ?B (current_voters ?B) = Some 5" by code_simp
  have mj: "majority_index 10 ?J (current_voters ?J) = Some 10" by code_simp
  have mq: "majority_index 10 ?J (previous_voters ?J) = Some 7" by code_simp
  have mt: "majority_index 8 ?T (current_voters ?T) = Some 5" by code_simp
  note a = majority_index_Some [OF ma] and b = majority_index_Some [OF mb]
    and j = majority_index_Some [OF mj] and q = majority_index_Some [OF mq]
    and t = majority_index_Some [OF mt]
  from committed_spec [of 0 10 ?A 10] a pa
  have 1: "committed 10 ?A 0 = max 0 10" by blast
  from committed_spec [of 12 10 ?A 10] a pa
  have 2: "committed 10 ?A 12 = max 12 10" by blast
  from committed_spec [of 0 10 ?B 5] b pb
  have 3: "committed 10 ?B 0 = max 0 5" by blast
  from committed_spec [of 0 10 ?J 10 7] j q pj
  have 4: "committed 10 ?J 0 = max 0 (min 10 7)" by blast
  from committed_spec [of 0 8 ?T 5] t pt(1)
  have 5: "committed 8 ?T 0 = max 0 5" by blast
  from a have a': "\<not> has_majority 10 ?A (current_voters ?A) 11" by fastforce
  have "committed 10 ?A 0 = 10" "committed 10 ?A 12 = 12" "committed 10 ?B 0 = 5"
    "committed 10 ?J 0 = 7" "committed 8 ?T 0 = 5"
    unfolding 1 2 3 4 5 by simp_all
  with a a' j q t pj pt(2) show ?thesis by blast
qed

text \<open>
  C2.  For a tracker whose \<open>responded\<close> set is no larger than its suffrage (the
  assertion of \<open>tally_votes\<close>) and whose suffrage has fewer than \<open>2 ^ 63\<close> members,
  \<open>tally_votes\<close> computed in \<open>size_t\<close> arithmetic returns \<open>WON\<close> if
  \<open>granted \<ge> |suffrage| div 2 + 1\<close>, otherwise \<open>LOST\<close> if
  \<open>granted + (|suffrage| - |responded|) < |suffrage| div 2 + 1\<close>, otherwise
  \<open>UNKNOWN\<close>, with the sizes and the arithmetic read in the natural numbers.
\<close>

theorem tally_votes_spec:
  assumes "fcard (responded t) \<le> fcard (suffrage t)" and "fcard (suffrage t) < 2 ^ 63"
  shows "tally_votes t =
     Inr (if unat (granted t) \<ge> fcard (suffrage t) div 2 + 1 then WON
          else if unat (granted t) + (fcard (suffrage t) - fcard (responded t))
                    < fcard (suffrage t) div 2 + 1 then LOST
          else UNKNOWN)"
  using assms by (rule tally_votes_nat)

text \<open>
  The examples of five voters: one grant and one denial leave the election open, three
  grants win it, three denials lose it.
\<close>

theorem tally_votes_spec_witness:
  "fcard (responded (register_votes [(1, True), (2, False)] (election_tracker five_voters)))
     \<le> fcard (suffrage (register_votes [(1, True), (2, False)] (election_tracker five_voters)))
   \<and> fcard (suffrage (register_votes [(1, True), (2, False)] (election_tracker five_voters)))
     < 2 ^ 63
   \<and> tally_votes (register_votes [(1, True), (2, False)] (election_tracker five_voters))
     = Inr UNKNOWN
   \<and> tally_votes (register_votes [(1, True), (2, True), (3, True)] (election_tracker five_voters))
     = Inr WON
   \<and> tally_votes (register_votes [(1, False), (2, False), (3, False)] (election_tracker five_voters))
     = Inr LOST"
proof -
  let ?u = "register_votes [(1, True), (2, False)] (election_tracker five_voters)"
  let ?w = "register_votes [(1, True), (2, True), (3, True)] (election_tracker five_voters)"
  let ?l = "register_votes [(1, False), (2, False), (3, False)] (election_tracker five_voters)"
  note defs = five_voters_def election_tracker_def register_vote_def fcard_finsert_if fcard_fempty
  have cu: "fcard (responded ?u) = 2" "fcard (suffrage ?u) = 5" "unat (granted ?u) = 1"
    by (simp_all add: defs)
  have cw: "fcard (responded ?w) = 3" "fcard (suffrage ?w) = 5" "unat (granted ?w) = 3"
    by (simp_all add: defs)
  have cl: "fcard (responded ?l) = 3" "fcard (suffrage ?l) = 5" "unat (granted ?l) = 0"
    by (simp_all add: defs)
  have "tally_votes ?u = Inr UNKNOWN"
    using tally_votes_spec [of ?u] by (simp only: cu) simp
  moreover have "tally_votes ?w = Inr WON"
    using tally_votes_spec [of ?w] by (simp only: cw) simp
  moreover have "tally_votes ?l = Inr LOST"
    using tally_votes_spec [of ?l] by (simp only: cl) simp
  ultimately show ?thesis by (simp only: cu) simp
qed

text \<open>
  C4.  After \<open>accepted(idx)\<close>, \<open>match_idx\<close> is the maximum of its old value and
  \<open>idx\<close>, and \<open>next_idx\<close> is the maximum of \<open>idx + 1\<close> (the addition of
  \<open>index_t\<close>) and its old value; along every sequence of calls, in whatever order
  the indices come, both fields never decrease: the state after any prefix of the calls
  is below the state after the whole sequence.
\<close>

theorem accepted_monotone:
  "match_idx (accepted idx p) = max (match_idx p) idx
   \<and> next_idx (accepted idx p) = max (idx + 1) (next_idx p)
   \<and> match_idx (accepted_all xs p) \<le> match_idx (accepted_all (xs @ ys) p)
   \<and> next_idx (accepted_all xs p) \<le> next_idx (accepted_all (xs @ ys) p)"
  using accepted_all_mono [of "accepted_all xs p" ys]
  by (simp add: accepted_fields accepted_all_append max.commute)

text \<open>
  C5, as stated, fails at the largest index: \<open>idx + 1\<close> wraps to \<open>0\<close>, so
  \<open>next_idx\<close> stays where it was while \<open>match_idx\<close> becomes the largest index.
\<close>

theorem accepted_invariant_counterexample:
  "0 < (1::index_t)
   \<and> match_idx (follower_progress (0::nat) 1) < next_idx (follower_progress (0::nat) 1)
   \<and> \<not> match_idx (accepted (- 1) (follower_progress (0::nat) 1))
        < next_idx (accepted (- 1) (follower_progress (0::nat) 1))"
  by (simp add: follower_progress_def accepted_def)

text \<open>
  C5, amended.  A \<open>follower_progress\<close> constructed with a strictly positive
  \<open>next_idx\<close> has \<open>match_idx = 0 < next_idx\<close>, and \<open>match_idx < next_idx\<close> is
  preserved by every call \<open>accepted(idx)\<close> whose \<open>idx + 1\<close> does not wrap around
  (\<open>idx\<close> is not the largest 64-bit value), hence by every sequence of such calls.
\<close>

theorem accepted_invariant:
  assumes "0 < n" and "\<forall>idx \<in> set idxs. idx + 1 \<noteq> 0"
  shows "match_idx (follower_progress i n) = 0
       \<and> match_idx (follower_progress i n) < next_idx (follower_progress i n)
       \<and> (match_idx p < next_idx p \<and> idx + 1 \<noteq> 0
            \<longrightarrow> match_idx (accepted idx p) < next_idx (accepted idx p))
       \<and> match_idx (accepted_all idxs (follower_progress i n))
            < next_idx (accepted_all idxs (follower_progress i n))"
proof -
  have init: "match_idx (follower_progress i n) < next_idx (follower_progress i n)"
    using assms(1) by (simp add: follower_progress_def)
  have "match_idx (follower_progress i n) = 0" by (simp add: follower_progress_def)
  moreover note init
  moreover have "match_idx p < next_idx p \<and> idx + 1 \<noteq> 0
      \<longrightarrow> match_idx (accepted idx p) < next_idx (accepted idx p)"
    by (simp add: accepted_keeps_less)
  moreover have "match_idx (accepted_all idxs (follower_progress i n))
            < next_idx (accepted_all idxs (follower_progress i n))"
    using init assms(2) by (rule accepted_all_keeps_less)
  ultimately show ?thesis by blast
qed

theorem accepted_invariant_witness:
  "0 < (1 :: index_t) \<and> list_all (\<lambda>idx. idx + 1 \<noteq> 0) [7, 3 :: index_t]
   \<and> match_idx (accepted_all [7, 3] (follower_progress (0::nat) 1)) = 7
   \<and> next_idx (accepted_all [7, 3] (follower_progress (0::nat) 1)) = 8
   \<and> match_idx (accepted_all [7, 3] (follower_progress (0::nat) 1))
        < next_idx (accepted_all [7, 3] (follower_progress (0::nat) 1))
   \<and> match_idx (accepted 9 (accepted_all [7, 3] (follower_progress (0::nat) 1)))
        < next_idx (accepted 9 (accepted_all [7, 3] (follower_progress (0::nat) 1)))"
proof -
  have h1: "0 < (1 :: index_t)" by simp
  have h2: "\<forall>idx \<in> set [7, 3 :: index_t]. idx + 1 \<noteq> 0" by simp
  from accepted_invariant [OF h1 h2, of "0::nat" "accepted_all [7, 3] (follower_progress (0::nat) 1)" 9]
  show ?thesis
    by (simp add: follower_progress_def accepted_def)
qed

text \<open>
  C6.  \<open>can_send_to\<close> is true in state \<open>PROBE\<close> iff \<open>probe_sent\<close> is false, in
  state \<open>PIPELINE\<close> iff \<open>in_flight < max_in_flight\<close>, where \<open>max_in_flight\<close> is
  10, and false in state \<open>SNAPSHOT\<close>.
\<close>

theorem can_send_to_spec:
  "(state p = PROBE \<longrightarrow> can_send_to p = (\<not> probe_sent p))
   \<and> (state p = PIPELINE \<longrightarrow> can_send_to p = (unat (in_flight p) < unat max_in_flight))
   \<and> (state p = SNAPSHOT \<longrightarrow> \<not> can_send_to p)
   \<and> unat max_in_flight = 10"
  by (simp add: can_send_to_def max_in_flight_def word_less_nat_alt)

theorem can_send_to_spec_witness:
  "can_send_to (follower_progress (1::nat) 1)
   \<and> \<not> can_send_to ((follower_progress (1::nat) 1)\<lparr> probe_sent := True \<rparr>)
   \<and> can_send_to ((follower_progress (1::nat) 1)\<lparr> state := PIPELINE, in_flight := 9 \<rparr>)
   \<and> \<not> can_send_to ((follower_progress (1::nat) 1)\<lparr> state := PIPELINE, in_flight := 10 \<rparr>)
   \<and> \<not> can_send_to ((follower_progress (1::nat) 1)\<lparr> state := SNAPSHOT \<rparr>)"
  using can_send_to_spec [of "follower_progress (1::nat) 1"]
    can_send_to_spec [of "(follower_progress (1::nat) 1)\<lparr> probe_sent := True \<rparr>"]
    can_send_to_spec [of "(follower_progress (1::nat) 1)\<lparr> state := PIPELINE, in_flight := 9 \<rparr>"]
    can_send_to_spec [of "(follower_progress (1::nat) 1)\<lparr> state := PIPELINE, in_flight := 10 \<rparr>"]
    can_send_to_spec [of "(follower_progress (1::nat) 1)\<lparr> state := SNAPSHOT \<rparr>"]
  by (simp add: follower_progress_def)

text \<open>
  C3.  Without a previous tracker, \<open>votes::tally_votes\<close> is the tally of the current
  one.  With a previous tracker, the result is \<open>WON\<close> iff both tallies are \<open>WON\<close>,
  \<open>LOST\<close> if either is \<open>LOST\<close>, and \<open>UNKNOWN\<close> otherwise.
\<close>

theorem votes_tally_votes_spec:
  "(previous v = None \<longrightarrow> votes_tally_votes v = tally_votes (current v))
   \<and> (previous v = Some prev \<and> tally_votes (current v) = Inr c \<and> tally_votes prev = Inr p \<longrightarrow>
        (votes_tally_votes v = Inr WON \<longleftrightarrow> c = WON \<and> p = WON)
        \<and> (c = LOST \<or> p = LOST \<longrightarrow> votes_tally_votes v = Inr LOST)
        \<and> (\<not> (c = WON \<and> p = WON) \<and> \<not> (c = LOST \<or> p = LOST)
              \<longrightarrow> votes_tally_votes v = Inr UNKNOWN))"
  by (auto simp add: votes_tally_votes_def joint_result_def)

theorem votes_tally_votes_spec_witness:
  "votes_tally_votes \<lparr> voters = five_voters,
       current = register_votes [(1, True), (2, True), (3, True)] (election_tracker five_voters),
       previous = Some (register_votes [(1, False), (2, False), (3, False)] (election_tracker five_voters)) \<rparr>
     = Inr LOST
   \<and> votes_tally_votes \<lparr> voters = five_voters,
       current = register_votes [(1, True), (2, False)] (election_tracker five_voters),
       previous = Some (register_votes [(1, True), (2, True), (3, True)] (election_tracker five_voters)) \<rparr>
     = Inr UNKNOWN
   \<and> votes_tally_votes \<lparr> voters = five_voters,
       current = register_votes [(1, True), (2, True), (3, True)] (election_tracker five_voters),
       previous = None \<rparr>
     = Inr WON"
proof -
  let ?w = "register_votes [(1, True), (2, True), (3, True)] (election_tracker five_voters)"
  let ?l = "register_votes [(1, False), (2, False), (3, False)] (election_tracker five_voters)"
  let ?u = "register_votes [(1, True), (2, False)] (election_tracker five_voters)"
  have w: "tally_votes ?w = Inr WON" by code_simp
  have l: "tally_votes ?l = Inr LOST" by code_simp
  have u: "tally_votes ?u = Inr UNKNOWN" by code_simp
  let ?A = "\<lparr> voters = five_voters, current = ?w, previous = Some ?l \<rparr>"
  let ?B = "\<lparr> voters = five_voters, current = ?u, previous = Some ?w \<rparr>"
  let ?C = "\<lparr> voters = five_voters, current = ?w, previous = None \<rparr>"
  have a: "previous ?A = Some ?l \<and> tally_votes (current ?A) = Inr WON \<and> tally_votes ?l = Inr LOST"
    by (simp only: votes.select_convs w l)
  have b: "previous ?B = Some ?w \<and> tally_votes (current ?B) = Inr UNKNOWN \<and> tally_votes ?w = Inr WON"
    by (simp only: votes.select_convs w u)
  have c: "previous ?C = None" "tally_votes (current ?C) = Inr WON"
    by (simp_all only: votes.select_convs w)
  have 1: "votes_tally_votes ?A = Inr LOST"
    using votes_tally_votes_spec [of ?A ?l WON LOST] a by blast
  have 2: "votes_tally_votes ?B = Inr UNKNOWN"
    using votes_tally_votes_spec [of ?B ?w UNKNOWN WON] b by blast
  have 3: "votes_tally_votes ?C = Inr WON"
    using votes_tally_votes_spec [of ?C] c by (simp only:)
  from 1 2 3 show ?thesis by blast
qed

text \<open>
  C7.  A call of \<open>register_vote\<close> with an id that is already in \<open>responded\<close>
  changes neither \<open>granted\<close> nor \<open>responded\<close> (nor anything else of the tracker),
  whichever vote it carries, and \<open>tally_votes\<close> gives the same result after it as
  before.
\<close>

theorem register_vote_duplicate:
  assumes "from |\<in>| responded t"
  shows "granted (snd (register_vote from g t)) = granted t
       \<and> responded (snd (register_vote from g t)) = responded t
       \<and> snd (register_vote from g t) = t
       \<and> tally_votes (snd (register_vote from g t)) = tally_votes t"
  using assms by (simp add: register_vote_def)

theorem register_vote_duplicate_witness:
  "2 |\<in>| responded (register_votes [(2, True)] (election_tracker five_voters))
   \<and> granted (register_votes [(2, True)] (election_tracker five_voters)) = 1
   \<and> snd (register_vote 2 False (register_votes [(2, True)] (election_tracker five_voters)))
     = register_votes [(2, True)] (election_tracker five_voters)
   \<and> tally_votes (snd (register_vote 2 False
         (register_votes [(2, True)] (election_tracker five_voters)))) = Inr UNKNOWN"
proof -
  let ?t = "register_votes [(2, True)] (election_tracker five_voters)"
  have h: "2 |\<in>| responded ?t"
    by (simp add: five_voters_def election_tracker_def register_vote_def)
  have g: "granted ?t = 1"
    by (simp add: five_voters_def election_tracker_def register_vote_def)
  have tl: "tally_votes ?t = Inr UNKNOWN"
    by code_simp
  from register_vote_duplicate [OF h, of False] h g tl show ?thesis by simp
qed

text \<open>
  C8.  For an id that is not in the suffrage, \<open>register_vote\<close> returns \<open>false\<close>
  and leaves the tracker (\<open>responded\<close>, \<open>granted\<close>) unchanged, whichever vote it
  carries.
\<close>

theorem register_vote_unknown_voter:
  assumes "from |\<notin>| suffrage t"
  shows "fst (register_vote from g t) = False
       \<and> snd (register_vote from g t) = t
       \<and> responded (snd (register_vote from g t)) = responded t
       \<and> granted (snd (register_vote from g t)) = granted t"
  using assms by (simp add: register_vote_def)

theorem register_vote_unknown_voter_witness:
  "6 |\<notin>| suffrage (election_tracker five_voters)
   \<and> register_vote 6 True (election_tracker five_voters)
       = (False, election_tracker five_voters)"
proof -
  have h: "6 |\<notin>| suffrage (election_tracker five_voters)"
    by (simp add: five_voters_def election_tracker_def)
  from register_vote_unknown_voter [OF h, of True] h show ?thesis
    by (simp add: prod_eq_iff)
qed

text \<open>
  C9.  For a tracker constructed from a configuration, after any sequence of
  \<open>register_vote\<close> calls, \<open>granted \<le> |responded| \<le> |suffrage|\<close>.  When the
  size of the suffrage fits into \<open>size_t\<close>, the assertion of \<open>tally_votes\<close>
  holds, \<open>tally_votes\<close> does not fail, and the \<open>size_t\<close> subtraction
  \<open>|suffrage| - |responded|\<close> does not wrap around.
\<close>

theorem election_tracker_invariant:
  "unat (granted (register_votes vs (election_tracker cfg)))
      \<le> fcard (responded (register_votes vs (election_tracker cfg)))
   \<and> fcard (responded (register_votes vs (election_tracker cfg)))
      \<le> fcard (suffrage (register_votes vs (election_tracker cfg)))
   \<and> (fcard (suffrage (election_tracker cfg)) < 2 ^ 64 \<longrightarrow>
        set_size (responded (register_votes vs (election_tracker cfg)))
          \<le> set_size (suffrage (register_votes vs (election_tracker cfg)))
        \<and> tally_votes (register_votes vs (election_tracker cfg)) \<noteq> Inl Assertion_failed
        \<and> unat (set_size (suffrage (register_votes vs (election_tracker cfg)))
                 - set_size (responded (register_votes vs (election_tracker cfg))))
            + fcard (responded (register_votes vs (election_tracker cfg)))
          = fcard (suffrage (register_votes vs (election_tracker cfg))))"
proof -
  let ?i = "election_tracker cfg"
  let ?t = "register_votes vs ?i"
  have "responded ?i |\<subseteq>| suffrage ?i" "unat (granted ?i) \<le> fcard (responded ?i)"
    by (simp_all add: election_tracker_def)
  from register_votes_inv [OF this, of vs]
  have suf: "suffrage ?t = suffrage ?i" and sub: "responded ?t |\<subseteq>| suffrage ?i"
    and g: "unat (granted ?t) \<le> fcard (responded ?t)"
    by simp_all
  have le: "fcard (responded ?t) \<le> fcard (suffrage ?t)"
    using sub by (simp add: suf fcard_mono)
  have word: "set_size (responded ?t) \<le> set_size (suffrage ?t)
        \<and> tally_votes ?t \<noteq> Inl Assertion_failed
        \<and> unat (set_size (suffrage ?t) - set_size (responded ?t)) + fcard (responded ?t)
          = fcard (suffrage ?t)"
    if bound: "fcard (suffrage ?i) < 2 ^ 64"
  proof -
    have uS: "unat (set_size (suffrage ?t)) = fcard (suffrage ?t)"
      using bound by (simp add: suf unat_set_size)
    have uR: "unat (set_size (responded ?t)) = fcard (responded ?t)"
      using bound le by (simp add: suf unat_set_size)
    have w: "set_size (responded ?t) \<le> set_size (suffrage ?t)"
      using le by (simp add: word_le_nat_alt uS uR)
    have "unat (set_size (suffrage ?t) - set_size (responded ?t))
            = fcard (suffrage ?t) - fcard (responded ?t)"
      using w by (simp add: unat_sub uS uR)
    moreover have "tally_votes ?t \<noteq> Inl Assertion_failed"
      using w by (simp add: tally_votes_def Let_def)
    ultimately show ?thesis using w le by simp
  qed
  from g le word show ?thesis by blast
qed

theorem election_tracker_invariant_witness:
  "fcard (suffrage (election_tracker five_voters)) < 2 ^ 64
   \<and> unat (granted (register_votes [(1, True), (6, True), (1, True), (3, False)]
              (election_tracker five_voters))) = 1
   \<and> fcard (responded (register_votes [(1, True), (6, True), (1, True), (3, False)]
              (election_tracker five_voters))) = 2
   \<and> fcard (suffrage (register_votes [(1, True), (6, True), (1, True), (3, False)]
              (election_tracker five_voters))) = 5
   \<and> tally_votes (register_votes [(1, True), (6, True), (1, True), (3, False)]
              (election_tracker five_voters)) \<noteq> Inl Assertion_failed"
proof -
  note defs = five_voters_def election_tracker_def register_vote_def fcard_finsert_if fcard_fempty
  have h: "fcard (suffrage (election_tracker five_voters)) < 2 ^ 64"
    by (simp add: defs)
  have c: "unat (granted (register_votes [(1, True), (6, True), (1, True), (3, False)]
              (election_tracker five_voters))) = 1"
    "fcard (responded (register_votes [(1, True), (6, True), (1, True), (3, False)]
              (election_tracker five_voters))) = 2"
    "fcard (suffrage (register_votes [(1, True), (6, True), (1, True), (3, False)]
              (election_tracker five_voters))) = 5"
    by (simp_all add: defs)
  from election_tracker_invariant
    [of "[(1, True), (6, True), (1, True), (3, False)]" five_voters] h c
  show ?thesis by blast
qed

text \<open>
  C10.  For a configuration in which no member can vote, the suffrage is empty, the
  quorum is 1, every \<open>register_vote\<close> leaves the tracker as constructed, \<open>granted\<close>
  and the number of voters that have not responded are 0, and \<open>tally_votes\<close>
  returns \<open>LOST\<close> without failing its assertion.
\<close>

theorem tally_votes_empty_suffrage:
  assumes "\<forall>a \<in> set cfg. \<not> can_vote a"
  shows "suffrage (election_tracker cfg) = {||}
       \<and> set_size (suffrage (election_tracker cfg)) div 2 + 1 = 1
       \<and> register_votes vs (election_tracker cfg) = election_tracker cfg
       \<and> granted (register_votes vs (election_tracker cfg)) = 0
       \<and> set_size (suffrage (register_votes vs (election_tracker cfg)))
           - set_size (responded (register_votes vs (election_tracker cfg))) = 0
       \<and> tally_votes (register_votes vs (election_tracker cfg)) = Inr LOST"
proof -
  have e: "election_tracker cfg = \<lparr> suffrage = {||}, responded = {||}, granted = 0 \<rparr>"
    using assms by (simp add: election_tracker_def collect_suffrage_none)
  have r: "register_votes vs (election_tracker cfg) = election_tracker cfg"
    by (rule register_votes_empty_suffrage) (simp add: e)
  show ?thesis
    unfolding r unfolding e
    by (simp add: tally_votes_initial_empty set_size_def fcard_fempty)
qed

theorem tally_votes_empty_suffrage_witness:
  "list_all (\<lambda>a. \<not> can_vote a) observers_only
   \<and> tally_votes (register_votes [(1, True), (2, True)] (election_tracker observers_only))
       = Inr LOST"
proof -
  have h: "\<forall>a \<in> set observers_only. \<not> can_vote a" by (simp add: observers_only_def)
  have l: "list_all (\<lambda>a. \<not> can_vote a) observers_only" by (simp add: observers_only_def)
  from tally_votes_empty_suffrage [OF h, of "[(1, True), (2, True)]"] l
  show ?thesis by blast
qed

end
